theory Spec2Isabelle
  imports Complex_Main
begin

section \<open>JavaScript values used by the service worker\<close>

text \<open>
  A JavaScript number is a double. The code only compares numbers, takes \<open>Math.max\<close>
  and \<open>Math.floor\<close> of them and asks \<open>isNaN\<close> / \<open>isFinite\<close>, so a number is
  modelled as an exact rational or one of the three special values.
\<close>

datatype jsnum = NaN | NegInf | Fin rat | PosInf









text \<open>
  \<open>String.prototype.trim\<close> on a byte string: the ASCII white space and line
  terminators are stripped at both ends.
\<close>

definition is_ws :: "char \<Rightarrow> bool" where
  "is_ws c = (c \<in> {CHR '' '', CHR 0x09, CHR 0x0A, CHR 0x0B, CHR 0x0C, CHR 0x0D})"

definition js_trim :: "string \<Rightarrow> string" where
  "js_trim s = rev (dropWhile is_ws (rev (dropWhile is_ws s)))"

text \<open>\<open>!s || s.trim().length === 0\<close>\<close>

definition blank :: "string \<Rightarrow> bool" where
  "blank s = (s = [] \<or> length (js_trim s) = 0)"

text \<open>\<open>Math.ceil(a / b)\<close> on counts.\<close>

definition ceil_div :: "nat \<Rightarrow> nat \<Rightarrow> nat" where
  "ceil_div a b = (a + b - 1) div b"

section \<open>Records: raw history items and entries for the backend\<close>

text \<open>
  A \<open>HistoryItem\<close> as \<open>chrome.history.search\<close> delivers it: every field is optional;
  \<open>url\<close> and \<open>title\<close> are strings, \<open>lastVisitTime\<close> is a number (fractional
  milliseconds), \<open>visitCount\<close> is an integer.
\<close>

record HistoryItem =
  item_url :: "string option"
  item_title :: "string option"
  lastVisitTime :: "jsnum option"
  visitCount :: "int option"

record backend_entry =
  url :: string
  title :: string
  visit_count :: jsnum
  last_visit_time :: jsnum




section \<open>Batch preparation\<close>

record history_batch =
  history :: "backend_entry list"
  batchNumber :: nat
  totalBatches :: nat

definition BATCH_SIZE :: nat where
  "BATCH_SIZE = 500"

text \<open>\<open>xs.slice(i, j)\<close> for \<open>0 \<le> i \<le> j\<close>.\<close>

definition slice :: "nat \<Rightarrow> nat \<Rightarrow> 'a list \<Rightarrow> 'a list" where
  "slice i j xs = take (j - i) (drop i xs)"

text \<open>The loop \<open>for (let i = 0; i < history.length; i += BATCH_SIZE)\<close>.\<close>

function prepareLoop :: "backend_entry list \<Rightarrow> nat \<Rightarrow> nat \<Rightarrow> history_batch list" where
  "prepareLoop hist n i =
     (if i < length hist
      then \<lparr> history = slice i (i + BATCH_SIZE) hist,
             batchNumber = i div BATCH_SIZE + 1,
             totalBatches = n \<rparr> # prepareLoop hist n (i + BATCH_SIZE)
      else [])"
  by pat_completeness auto
termination
  by (relation "measure (\<lambda>(hist, n, i). length hist - i)") (auto simp: BATCH_SIZE_def)

declare prepareLoop.simps [simp del]

definition prepareBatches :: "backend_entry list \<Rightarrow> history_batch list" where
  "prepareBatches hist =
     (if length hist > 0 then prepareLoop hist (ceil_div (length hist) BATCH_SIZE) 0 else [])"

section \<open>Enumerating the history source: \<open>fetchHistory\<close>\<close>

text \<open>
  The query object handed to \<open>chrome.history.search\<close>. The time bounds are present
  only when the code puts them into the object.
\<close>

record SearchQuery =
  q_text :: string
  q_startTime :: "int option"
  q_endTime :: "int option"
  q_maxResults :: nat

text \<open>
  \<open>chrome.history.search\<close> is outside the repository, so it is a parameter: given the
  calls made so far and the query, it either sets \<open>chrome.runtime.lastError\<close> (\<open>Inl\<close>
  its message) or delivers items.
\<close>

type_synonym source = "SearchQuery list \<Rightarrow> SearchQuery \<Rightarrow> string + HistoryItem list"







text \<open>
  One \<open>chrome.history.search\<close> call with its fallback: when the call delivers no item
  and the search text is blank, a second call with the text \<open>' '\<close> is made; an error
  of the second call gives the empty list, an error of the first is a rejection. The
  result carries the log of calls.
\<close>

definition searchWithFallback ::
  "source \<Rightarrow> string \<Rightarrow> SearchQuery \<Rightarrow> SearchQuery \<Rightarrow> SearchQuery list
     \<Rightarrow> SearchQuery list \<times> (string + HistoryItem list)" where
  "searchWithFallback src searchText searchQuery fallbackQuery calls =
     (case src calls searchQuery of
        Inl err \<Rightarrow> (calls @ [searchQuery], Inl err)
      | Inr historyItems \<Rightarrow>
          if length historyItems = 0 \<and> blank searchText
          then (case src (calls @ [searchQuery]) fallbackQuery of
                  Inl err \<Rightarrow> (calls @ [searchQuery, fallbackQuery], Inr [])
                | Inr fallbackItems \<Rightarrow> (calls @ [searchQuery, fallbackQuery], Inr fallbackItems))
          else (calls @ [searchQuery], Inr historyItems))"


















section \<open>The upload session of \<open>chatWithBackend\<close>\<close>

datatype readyState = CONNECTING | OPEN | CLOSING | CLOSED

text \<open>
  What \<open>JSON.parse(event.data)\<close> yields: \<open>data.type\<close> (the empty string when
  absent) and the fields \<open>reply\<close> and \<open>error\<close>, \<open>None\<close> when absent or falsy.
  \<open>Unparseable\<close> is a frame on which \<open>JSON.parse\<close> or the property access throws.
\<close>

record server_data =
  d_type :: string
  d_reply :: "string option"
  d_error :: "string option"

datatype frame = Unparseable | Data server_data

datatype client_msg =
    HistoryBatch history_batch
  | HistoryUploadComplete
  | Chat string "(string \<times> string) list"

datatype settlement = Resolve string | Reject string

text \<open>
  The closure variables of the Promise executor, the socket's \<open>readyState\<close>, and the
  effects: \<open>wire\<close> lists the frames \<open>ws.send\<close> transmitted, oldest first;
  \<open>settlements\<close> lists the calls of \<open>resolve\<close> and \<open>reject\<close> in order;
  \<open>timeoutPending\<close> says that the five-minute timer is armed; the three counters
  count the pending \<open>setTimeout\<close> callbacks (one second, 10 ms, 100 ms).
\<close>

record session =
  ws_readyState :: readyState
  isResolved :: bool
  isConnected :: bool
  batchesToSend :: "history_batch list"
  currentBatchIndex :: nat
  totalBatchesAcknowledged :: nat
  historyUploadCompleteSent :: bool
  historyUploadCompleteAcknowledged :: bool
  chatMessageSent :: bool
  chat_message :: string
  conversationMessages :: "(string \<times> string) list"
  wire :: "client_msg list"
  settlements :: "settlement list"
  timeoutPending :: bool
  graceTimers :: nat
  sendTimers :: nat
  retryTimers :: nat

definition newSession :: "string \<Rightarrow> (string \<times> string) list \<Rightarrow> backend_entry list \<Rightarrow> session" where
  "newSession message conv hist =
     \<lparr> ws_readyState = CONNECTING, isResolved = False, isConnected = False,
       batchesToSend = prepareBatches hist, currentBatchIndex = 0,
       totalBatchesAcknowledged = 0, historyUploadCompleteSent = False,
       historyUploadCompleteAcknowledged = False, chatMessageSent = False,
       chat_message = message, conversationMessages = conv,
       wire = [], settlements = [], timeoutPending = True,
       graceTimers = 0, sendTimers = 0, retryTimers = 0 \<rparr>"

text \<open>A Promise keeps its first settlement; later calls of \<open>resolve\<close> or \<open>reject\<close> have no effect on it.\<close>

definition promise :: "session \<Rightarrow> settlement option" where
  "promise s = (case settlements s of [] \<Rightarrow> None | x # _ \<Rightarrow> Some x)"

definition resolve :: "string \<Rightarrow> session \<Rightarrow> session" where
  "resolve r s = s\<lparr> settlements := settlements s @ [Resolve r] \<rparr>"

definition reject :: "string \<Rightarrow> session \<Rightarrow> session" where
  "reject e s = s\<lparr> settlements := settlements s @ [Reject e] \<rparr>"

definition clearTimeout :: "session \<Rightarrow> session" where
  "clearTimeout s = s\<lparr> timeoutPending := False \<rparr>"

text \<open>\<open>ws.close()\<close> starts the closing handshake unless the socket is closing or closed.\<close>

definition ws_close :: "session \<Rightarrow> session" where
  "ws_close s =
     (if ws_readyState s = CLOSING \<or> ws_readyState s = CLOSED then s
      else s\<lparr> ws_readyState := CLOSING \<rparr>)"

text \<open>
  \<open>ws.send(frame)\<close> transmits on an open socket. On a closing or closed socket the
  frame is discarded; on a connecting socket \<open>send\<close> throws, and the \<open>try\<close> block
  of \<open>onmessage\<close> catches that. Every call outside \<open>sendNextBatch\<close> is the last
  statement of its branch, so in all three cases nothing else changes.
\<close>

definition ws_send :: "client_msg \<Rightarrow> session \<Rightarrow> session" where
  "ws_send m s = (if ws_readyState s = OPEN then s\<lparr> wire := wire s @ [m] \<rparr> else s)"

definition readyState_code :: "readyState \<Rightarrow> string" where
  "readyState_code r = (case r of CONNECTING \<Rightarrow> ''0'' | OPEN \<Rightarrow> ''1'' | CLOSING \<Rightarrow> ''2'' | CLOSED \<Rightarrow> ''3'')"

definition not_ready_error :: "session \<Rightarrow> string" where
  "not_ready_error s = ''WebSocket not ready (state: '' @ readyState_code (ws_readyState s) @ '')''"

text \<open>
  \<open>sendNextBatch\<close>. The socket is open when \<open>JSON.stringify\<close> and \<open>ws.send\<close> run,
  so neither throws and the \<open>catch\<close> block is not entered.
\<close>

definition sendNextBatch :: "session \<Rightarrow> session" where
  "sendNextBatch s =
     (if currentBatchIndex s \<ge> length (batchesToSend s) then s
      else if ws_readyState s \<noteq> OPEN then s\<lparr> retryTimers := retryTimers s + 1 \<rparr>
      else (let batch = batchesToSend s ! currentBatchIndex s;
                s1 = ws_send (HistoryBatch batch) s
            in s1\<lparr> currentBatchIndex := currentBatchIndex s1 + 1 \<rparr>))"

text \<open>The callback of the 100 ms retry timer set by \<open>sendNextBatch\<close>.\<close>

definition on_retryTimer :: "session \<Rightarrow> session" where
  "on_retryTimer s =
     (if ws_readyState s = OPEN then sendNextBatch s
      else reject ''WebSocket connection not ready for sending batches'' s)"

text \<open>The callback of the five-minute timer.\<close>

definition on_timeout :: "session \<Rightarrow> session" where
  "on_timeout s = (if \<not> isResolved s then reject ''WebSocket connection timeout'' (ws_close s) else s)"

text \<open>\<open>ws.onopen\<close> arms the one-second timer; \<open>on_graceTimer\<close> is its callback.\<close>

definition on_open :: "session \<Rightarrow> session" where
  "on_open s = s\<lparr> graceTimers := graceTimers s + 1 \<rparr>"

definition on_graceTimer :: "session \<Rightarrow> session" where
  "on_graceTimer s =
     (if \<not> isConnected s \<and> length (batchesToSend s) > 0 \<and> currentBatchIndex s = 0
      then sendNextBatch (s\<lparr> isConnected := True \<rparr>)
      else s)"

text \<open>\<open>ws.onmessage\<close>, one function per branch of the dispatch on \<open>data.type\<close>.\<close>

definition on_connected :: "session \<Rightarrow> session" where
  "on_connected s =
     (let s1 = s\<lparr> isConnected := True \<rparr>
      in if length (batchesToSend s1) > 0 then
           (if ws_readyState s1 = OPEN then sendNextBatch s1
            else reject (not_ready_error s1) s1)
         else if \<not> historyUploadCompleteSent s1 then
           (let s2 = s1\<lparr> historyUploadCompleteSent := True \<rparr>
            in if ws_readyState s2 = OPEN then ws_send HistoryUploadComplete s2
               else reject (not_ready_error s2) s2)
         else s1)"

definition on_history_batch_ack :: "session \<Rightarrow> session" where
  "on_history_batch_ack s =
     (let s1 = s\<lparr> totalBatchesAcknowledged := totalBatchesAcknowledged s + 1 \<rparr>;
          allBatchesSent = (currentBatchIndex s1 \<ge> length (batchesToSend s1));
          allBatchesAcknowledged = (totalBatchesAcknowledged s1 \<ge> length (batchesToSend s1));
          s2 = (if \<not> allBatchesSent then s1\<lparr> sendTimers := sendTimers s1 + 1 \<rparr> else s1)
      in if allBatchesSent \<and> allBatchesAcknowledged \<and> \<not> historyUploadCompleteSent s2
         then ws_send HistoryUploadComplete (s2\<lparr> historyUploadCompleteSent := True \<rparr>)
         else s2)"

definition on_history_upload_complete_ack :: "session \<Rightarrow> session" where
  "on_history_upload_complete_ack s =
     (let s1 = s\<lparr> historyUploadCompleteAcknowledged := True \<rparr>
      in if \<not> chatMessageSent s1
         then ws_send (Chat (js_trim (chat_message s1)) (conversationMessages s1))
                (s1\<lparr> chatMessageSent := True \<rparr>)
         else s1)"

definition on_reply :: "string \<Rightarrow> session \<Rightarrow> session" where
  "on_reply r s =
     (let s1 = ws_close (clearTimeout s)
      in if \<not> isResolved s1 then resolve r (s1\<lparr> isResolved := True \<rparr>) else s1)"

definition on_error_message :: "string \<Rightarrow> session \<Rightarrow> session" where
  "on_error_message e s =
     (let s1 = ws_close (clearTimeout s)
      in if \<not> isResolved s1 then reject e (s1\<lparr> isResolved := True \<rparr>) else s1)"

definition on_message :: "frame \<Rightarrow> session \<Rightarrow> session" where
  "on_message f s =
     (case f of
        Unparseable \<Rightarrow> s
      | Data d \<Rightarrow>
          if d_type d = ''connected'' then on_connected s
          else if d_type d = ''history_batch_ack'' then on_history_batch_ack s
          else if d_type d = ''history_upload_complete_ack'' then on_history_upload_complete_ack s
          else if d_type d = ''chat_queued'' then s
          else (case d_reply d of
                  Some r \<Rightarrow> on_reply r s
                | None \<Rightarrow> (case d_error d of Some e \<Rightarrow> on_error_message e s | None \<Rightarrow> s)))"

definition on_error :: "session \<Rightarrow> session" where
  "on_error s =
     (let s1 = clearTimeout s
      in if \<not> isResolved s1 then reject ''WebSocket connection error'' (s1\<lparr> isResolved := True \<rparr>)
         else s1)"

definition on_close :: "session \<Rightarrow> session" where
  "on_close s =
     (let s1 = clearTimeout s
      in if \<not> isResolved s1
         then reject ''WebSocket closed before receiving response'' (s1\<lparr> isResolved := True \<rparr>)
         else s1)"

text \<open>
  The events the browser delivers to the session. A timer event runs its callback only
  when such a timer is pending. The browser sets \<open>readyState\<close> before it fires
  \<open>open\<close> and \<open>close\<close>; \<open>Ev_closing\<close> is the peer starting the closing handshake,
  which no handler observes.
\<close>

datatype event =
    Ev_open
  | Ev_message frame
  | Ev_error
  | Ev_closing
  | Ev_close
  | Ev_timeout
  | Ev_graceTimer
  | Ev_sendTimer
  | Ev_retryTimer

fun step :: "session \<Rightarrow> event \<Rightarrow> session" where
  "step s Ev_open = on_open (s\<lparr> ws_readyState := OPEN \<rparr>)"
| "step s (Ev_message f) = on_message f s"
| "step s Ev_error = on_error s"
| "step s Ev_closing = ws_close s"
| "step s Ev_close = on_close (s\<lparr> ws_readyState := CLOSED \<rparr>)"
| "step s Ev_timeout =
     (if timeoutPending s then on_timeout (s\<lparr> timeoutPending := False \<rparr>) else s)"
| "step s Ev_graceTimer =
     (if graceTimers s > 0 then on_graceTimer (s\<lparr> graceTimers := graceTimers s - 1 \<rparr>) else s)"
| "step s Ev_sendTimer =
     (if sendTimers s > 0 then sendNextBatch (s\<lparr> sendTimers := sendTimers s - 1 \<rparr>) else s)"
| "step s Ev_retryTimer =
     (if retryTimers s > 0 then on_retryTimer (s\<lparr> retryTimers := retryTimers s - 1 \<rparr>) else s)"

definition run :: "session \<Rightarrow> event list \<Rightarrow> session" where
  "run s es = foldl step s es"

text \<open>The frames of the protocol, as the server sends them.\<close>

definition msg_of_type :: "string \<Rightarrow> event" where
  "msg_of_type t = Ev_message (Data \<lparr> d_type = t, d_reply = None, d_error = None \<rparr>)"

definition connected_msg :: event where
  "connected_msg = msg_of_type ''connected''"

definition history_batch_ack_msg :: event where
  "history_batch_ack_msg = msg_of_type ''history_batch_ack''"

definition history_upload_complete_ack_msg :: event where
  "history_upload_complete_ack_msg = msg_of_type ''history_upload_complete_ack''"

fun is_batch_ack :: "event \<Rightarrow> bool" where
  "is_batch_ack (Ev_message (Data d)) = (d_type d = ''history_batch_ack'')"
| "is_batch_ack _ = False"

fun is_upload_complete_ack :: "event \<Rightarrow> bool" where
  "is_upload_complete_ack (Ev_message (Data d)) = (d_type d = ''history_upload_complete_ack'')"
| "is_upload_complete_ack _ = False"

fun is_chat :: "client_msg \<Rightarrow> bool" where
  "is_chat (Chat m c) = True"
| "is_chat _ = False"

text \<open>The batches among transmitted frames, in order.\<close>

fun batches_of :: "client_msg list \<Rightarrow> history_batch list" where
  "batches_of [] = []"
| "batches_of (HistoryBatch b # ms) = b # batches_of ms"
| "batches_of (m # ms) = batches_of ms"

text \<open>
  The invariant of the upload: the batches on the wire are the first
  \<open>currentBatchIndex\<close> prepared ones, in order; once the completion signal is on the
  wire, every prepared batch went out before it and at least as many acknowledgments
  were counted; a chat request on the wire means the completion acknowledgment was seen.
\<close>

definition upload_inv :: "session \<Rightarrow> bool" where
  "upload_inv s =
     (currentBatchIndex s \<le> length (batchesToSend s)
      \<and> batches_of (wire s) = take (currentBatchIndex s) (batchesToSend s)
      \<and> (HistoryUploadComplete \<in> set (wire s) \<longrightarrow>
            currentBatchIndex s = length (batchesToSend s)
          \<and> length (batchesToSend s) \<le> totalBatchesAcknowledged s
          \<and> batches_of (takeWhile (\<lambda>m. m \<noteq> HistoryUploadComplete) (wire s)) = batchesToSend s)
      \<and> (list_ex is_chat (wire s) \<longrightarrow> historyUploadCompleteAcknowledged s))"


text \<open>
  Messages that neither the \<open>reply\<close> nor the \<open>error\<close> branch handles and that are
  not the welcome: acknowledgments, \<open>chat_queued\<close>, unknown types, unparseable frames.
\<close>

fun is_ignorable :: "frame \<Rightarrow> bool" where
  "is_ignorable Unparseable = True"
| "is_ignorable (Data d) =
     (d_type d \<noteq> ''connected'' \<and> d_type d \<noteq> ''history_batch_ack''
      \<and> d_type d \<noteq> ''history_upload_complete_ack''
      \<and> (d_type d = ''chat_queued'' \<or> (d_reply d = None \<and> d_error d = None)))"

fun is_ack_frame :: "frame \<Rightarrow> bool" where
  "is_ack_frame Unparseable = False"
| "is_ack_frame (Data d) =
     (d_type d = ''history_batch_ack'' \<or> d_type d = ''history_upload_complete_ack'')"








section \<open>Sample data\<close>

definition e0 :: backend_entry where
  "e0 = \<lparr> url = ''https://example.org/'', title = [], visit_count = Fin 0, last_visit_time = Fin 1 \<rparr>"

definition full_exchange :: "event list" where
  "full_exchange = [Ev_open, connected_msg, history_batch_ack_msg, history_upload_complete_ack_msg]"


definition open_session :: session where
  "open_session = run (newSession ''hi'' [] [e0]) [Ev_open]"

definition ack_frame :: frame where
  "ack_frame = Data \<lparr> d_type = ''history_batch_ack'', d_reply = None, d_error = None \<rparr>"

















section \<open>Batch preparation: count, numbering, content\<close>

lemma ceil_div_Suc:
  assumes "0 < b" "0 < m"
  shows "ceil_div m b = Suc ((m - 1) div b)"
proof -
  have e: "m - 1 + b = m + b - 1" using assms by arith
  have "(m - 1 + b) div b = (m - 1) div b + 1"
    using assms by (intro div_add_self2) simp
  then show ?thesis unfolding e ceil_div_def by simp
qed

lemma ceil_div_zero: "0 < b \<Longrightarrow> ceil_div 0 b = 0"
  by (simp add: ceil_div_def)

lemma ceil_div_step:
  assumes "0 < b" "0 < m"
  shows "ceil_div m b = Suc (ceil_div (m - b) b)"
proof (cases "b < m")
  case True
  then have "0 < m - b" by simp
  then have "ceil_div (m - b) b = Suc ((m - b - 1) div b)"
    using assms ceil_div_Suc by blast
  moreover have "m - 1 = (m - b - 1) + b" using True assms by arith
  then have "(m - 1) div b = ((m - b - 1) + b) div b" by (rule arg_cong)
  then have "(m - 1) div b = Suc ((m - b - 1) div b)" using assms by simp
  ultimately show ?thesis using assms by (simp only: ceil_div_Suc)
next
  case False
  then have "m - b = 0" by simp
  moreover have "(m - 1) div b = 0" using False assms by simp
  ultimately show ?thesis using assms by (simp add: ceil_div_Suc ceil_div_zero)
qed

lemma ceil_div_pos: "0 < b \<Longrightarrow> 0 < m \<Longrightarrow> 0 < ceil_div m b"
  by (simp add: ceil_div_Suc)

lemma ceil_div_upper:
  assumes "0 < b"
  shows "m \<le> ceil_div m b * b"
proof (cases "0 < m")
  case True
  have "m - 1 < (m - 1) div b * b + b"
    using assms by (metis add.commute div_mult_mod_eq mod_less_divisor nat_add_left_cancel_less)
  then show ?thesis using assms True by (simp add: ceil_div_Suc)
next
  case False
  then show ?thesis by simp
qed

lemma ceil_div_lower:
  assumes "0 < b" "0 < m"
  shows "(ceil_div m b - 1) * b < m"
proof -
  have "(m - 1) div b * b \<le> m - 1" by simp
  also have "m - 1 < m" using assms by simp
  finally have "(m - 1) div b * b < m" .
  moreover have "ceil_div m b - 1 = (m - 1) div b"
    using assms by (simp add: ceil_div_Suc)
  ultimately show ?thesis by (simp only:)
qed

lemma BATCH_SIZE_pos: "0 < BATCH_SIZE"
  by (simp add: BATCH_SIZE_def)

lemma prepareLoop_length:
  "length (prepareLoop hist n i) = ceil_div (length hist - i) BATCH_SIZE"
proof (induction hist n i rule: prepareLoop.induct)
  case (1 hist n i)
  show ?case
  proof (cases "i < length hist")
    case True
    then have "ceil_div (length hist - i) BATCH_SIZE
            = Suc (ceil_div (length hist - i - BATCH_SIZE) BATCH_SIZE)"
      by (intro ceil_div_step BATCH_SIZE_pos) simp
    moreover have "length hist - i - BATCH_SIZE = length hist - (i + BATCH_SIZE)"
      by simp
    ultimately show ?thesis using True "1.IH"
      by (subst prepareLoop.simps) (simp del: prepareLoop.simps)
  next
    case False
    then show ?thesis
      by (subst prepareLoop.simps) (simp add: ceil_div_zero BATCH_SIZE_pos del: prepareLoop.simps)
  qed
qed

lemma prepareLoop_concat:
  "concat (map history (prepareLoop hist n i)) = drop i hist"
proof (induction hist n i rule: prepareLoop.induct)
  case (1 hist n i)
  show ?case
  proof (cases "i < length hist")
    case True
    have "take BATCH_SIZE (drop i hist) @ drop (i + BATCH_SIZE) hist = drop i hist"
      by (metis add.commute append_take_drop_id drop_drop)
    with True "1.IH" show ?thesis
      by (subst prepareLoop.simps) (simp add: slice_def del: prepareLoop.simps)
  next
    case False
    then show ?thesis
      by (subst prepareLoop.simps) (simp del: prepareLoop.simps)
  qed
qed

lemma prepareLoop_nth:
  "j < length (prepareLoop hist n i) \<Longrightarrow>
   prepareLoop hist n i ! j =
     \<lparr> history = slice (i + j * BATCH_SIZE) (i + j * BATCH_SIZE + BATCH_SIZE) hist,
       batchNumber = (i + j * BATCH_SIZE) div BATCH_SIZE + 1,
       totalBatches = n \<rparr>"
proof (induction hist n i arbitrary: j rule: prepareLoop.induct)
  case (1 hist n i)
  note unfold = prepareLoop.simps [of hist n i]
  show ?case
  proof (cases "i < length hist")
    case True
    show ?thesis
    proof (cases j)
      case 0
      with True show ?thesis by (subst unfold) (simp del: prepareLoop.simps)
    next
      case (Suc k)
      with "1.prems" True have "k < length (prepareLoop hist n (i + BATCH_SIZE))"
        by (subst (asm) unfold) (simp del: prepareLoop.simps)
      from "1.IH" [OF True this] Suc True show ?thesis
        by (subst unfold) (simp add: ac_simps del: prepareLoop.simps)
    qed
  next
    case False
    with "1.prems" show ?thesis
      by (subst (asm) unfold) (simp del: prepareLoop.simps)
  qed
qed

text \<open>
  C3. For a non-empty history of \<open>N\<close> records and the batch size 500, the prepared
  batches number \<open>\<lceil>N/500\<rceil>\<close>, they carry the batch numbers 1, 2, ...,
  \<open>\<lceil>N/500\<rceil>\<close> in this order and all the same \<open>totalBatches = \<lceil>N/500\<rceil>\<close>,
  their record slices concatenated give the history back, and the last batch holds
  \<open>N - 500 * (\<lceil>N/500\<rceil> - 1)\<close> records.
\<close>

theorem prepareBatches_correct:
  assumes "hist \<noteq> []"
  shows "BATCH_SIZE = 500
       \<and> length (prepareBatches hist) = ceil_div (length hist) BATCH_SIZE
       \<and> map batchNumber (prepareBatches hist) = [1 ..< Suc (ceil_div (length hist) BATCH_SIZE)]
       \<and> list_all (\<lambda>b. totalBatches b = ceil_div (length hist) BATCH_SIZE) (prepareBatches hist)
       \<and> concat (map history (prepareBatches hist)) = hist
       \<and> length (history (last (prepareBatches hist)))
           = length hist - BATCH_SIZE * (ceil_div (length hist) BATCH_SIZE - 1)"
proof -
  let ?c = "ceil_div (length hist) BATCH_SIZE"
  let ?bs = "prepareBatches hist"
  from assms have bs: "?bs = prepareLoop hist ?c 0"
    by (simp add: prepareBatches_def)
  have len: "length ?bs = ?c"
    by (simp add: bs prepareLoop_length)
  have nth: "?bs ! j = \<lparr> history = slice (j * BATCH_SIZE) (j * BATCH_SIZE + BATCH_SIZE) hist,
                         batchNumber = j + 1, totalBatches = ?c \<rparr>" if "j < ?c" for j
    using prepareLoop_nth [of j hist ?c 0] that len BATCH_SIZE_pos
    by (simp add: bs)
  have nums: "map batchNumber ?bs = [1 ..< Suc ?c]"
    by (rule nth_equalityI) (simp_all add: len nth nth_upt del: upt_Suc)
  have tot: "list_all (\<lambda>b. totalBatches b = ?c) ?bs"
    unfolding list_all_length using nth len by simp
  have cat: "concat (map history ?bs) = hist"
    by (simp add: bs prepareLoop_concat)
  from assms have cpos: "0 < ?c"
    by (simp add: ceil_div_pos BATCH_SIZE_pos)
  then have ne: "?bs \<noteq> []" using len by auto
  have "last ?bs = ?bs ! (?c - 1)"
    using last_conv_nth [OF ne] len by simp
  also have "\<dots> = \<lparr> history = slice ((?c - 1) * BATCH_SIZE) ((?c - 1) * BATCH_SIZE + BATCH_SIZE) hist,
                       batchNumber = (?c - 1) + 1, totalBatches = ?c \<rparr>"
    using cpos by (intro nth) simp
  finally have l1: "length (history (last ?bs)) = min BATCH_SIZE (length hist - (?c - 1) * BATCH_SIZE)"
    by (simp add: slice_def)
  have "length hist \<le> ?c * BATCH_SIZE"
    by (rule ceil_div_upper [OF BATCH_SIZE_pos])
  also have "?c * BATCH_SIZE = (?c - 1) * BATCH_SIZE + BATCH_SIZE"
    using cpos by (simp add: diff_mult_distrib)
  finally have "length hist - (?c - 1) * BATCH_SIZE \<le> BATCH_SIZE"
    by simp
  with l1 have lastlen: "length (history (last ?bs)) = length hist - BATCH_SIZE * (?c - 1)"
    by (simp add: mult.commute)
  from len nums tot cat lastlen show ?thesis
    by (simp only: BATCH_SIZE_def simp_thms)
qed

theorem prepareBatches_correct_witness:
  "replicate 12345 e0 \<noteq> []
   \<and> length (prepareBatches (replicate 12345 e0)) = 25
   \<and> concat (map history (prepareBatches (replicate 12345 e0))) = replicate 12345 e0
   \<and> length (history (last (prepareBatches (replicate 12345 e0)))) = 345"
proof -
  have ne: "replicate 12345 e0 \<noteq> []"
    by (simp only: replicate_empty)
  have c: "ceil_div (length (replicate 12345 e0)) BATCH_SIZE = 25"
    by (simp only: length_replicate ceil_div_def BATCH_SIZE_def)
  from prepareBatches_correct [OF ne] show ?thesis
    unfolding c by (simp only: ne length_replicate BATCH_SIZE_def) simp
qed

section \<open>The upload session: invariant and bookkeeping\<close>

lemma batches_of_append: "batches_of (xs @ ys) = batches_of xs @ batches_of ys"
  by (induction xs rule: batches_of.induct) simp_all

lemma takeWhile_snoc_complete:
  "takeWhile (\<lambda>m. m \<noteq> HistoryUploadComplete) (xs @ [y]) =
     (if HistoryUploadComplete \<in> set xs then takeWhile (\<lambda>m. m \<noteq> HistoryUploadComplete) xs
      else if y = HistoryUploadComplete then xs else xs @ [y])"
  by (induction xs) auto

lemma upload_inv_sendNextBatch: "upload_inv s \<Longrightarrow> upload_inv (sendNextBatch s)"
  by (auto simp: upload_inv_def sendNextBatch_def ws_send_def Let_def batches_of_append
        take_Suc_conv_app_nth takeWhile_snoc_complete)

lemma upload_inv_timers [simp]:
  "upload_inv (s\<lparr> sendTimers := a \<rparr>) = upload_inv s"
  "upload_inv (s\<lparr> retryTimers := b \<rparr>) = upload_inv s"
  "upload_inv (s\<lparr> graceTimers := c \<rparr>) = upload_inv s"
  "upload_inv (s\<lparr> timeoutPending := d \<rparr>) = upload_inv s"
  "upload_inv (s\<lparr> ws_readyState := r \<rparr>) = upload_inv s"
  "upload_inv (s\<lparr> isConnected := f \<rparr>) = upload_inv s"
  "upload_inv (s\<lparr> isResolved := g \<rparr>) = upload_inv s"
  "upload_inv (s\<lparr> settlements := h \<rparr>) = upload_inv s"
  by (simp_all add: upload_inv_def)

lemma upload_inv_on_connected: "upload_inv s \<Longrightarrow> upload_inv (on_connected s)"
proof -
  assume inv: "upload_inv s"
  show ?thesis
  proof (cases "length (batchesToSend s) > 0")
    case True
    then show ?thesis
      using inv upload_inv_sendNextBatch [of "s\<lparr> isConnected := True \<rparr>"]
      by (simp add: on_connected_def Let_def reject_def)
  next
    case False
    with inv show ?thesis
      by (auto simp: on_connected_def Let_def reject_def ws_send_def upload_inv_def
            batches_of_append takeWhile_snoc_complete)
  qed
qed

lemma upload_inv_on_history_batch_ack: "upload_inv s \<Longrightarrow> upload_inv (on_history_batch_ack s)"
  by (auto simp: on_history_batch_ack_def Let_def ws_send_def upload_inv_def
        batches_of_append takeWhile_snoc_complete)

lemma upload_inv_on_history_upload_complete_ack:
  "upload_inv s \<Longrightarrow> upload_inv (on_history_upload_complete_ack s)"
  by (auto simp: on_history_upload_complete_ack_def Let_def ws_send_def upload_inv_def
        batches_of_append takeWhile_snoc_complete)

lemma upload_inv_ws_close [simp]: "upload_inv (ws_close s) = upload_inv s"
  by (simp add: ws_close_def)

lemma upload_inv_reject [simp]: "upload_inv (reject e s) = upload_inv s"
  by (simp add: reject_def)

lemma upload_inv_resolve [simp]: "upload_inv (resolve r s) = upload_inv s"
  by (simp add: resolve_def)

lemma upload_inv_clearTimeout [simp]: "upload_inv (clearTimeout s) = upload_inv s"
  by (simp add: clearTimeout_def)

lemma upload_inv_on_message: "upload_inv s \<Longrightarrow> upload_inv (on_message f s)"
  by (cases f)
     (simp_all add: on_message_def on_reply_def on_error_message_def Let_def
        upload_inv_on_connected upload_inv_on_history_batch_ack
        upload_inv_on_history_upload_complete_ack split: option.split)

lemma upload_inv_step: "upload_inv s \<Longrightarrow> upload_inv (step s e)"
  by (cases e)
     (simp_all add: upload_inv_on_message on_open_def on_error_def on_close_def on_timeout_def
        on_graceTimer_def on_retryTimer_def upload_inv_sendNextBatch Let_def)

lemma run_snoc: "run s (es @ [e]) = step (run s es) e"
  by (simp add: run_def)

lemma run_Nil: "run s [] = s"
  by (simp add: run_def)

lemma run_Cons: "run s (e # es) = run (step s e) es"
  by (simp add: run_def)

lemma upload_inv_run: "upload_inv s \<Longrightarrow> upload_inv (run s es)"
  by (induction es rule: rev_induct) (simp_all add: run_Nil run_snoc upload_inv_step)

lemma upload_inv_newSession: "upload_inv (newSession msg conv hist)"
  by (simp add: upload_inv_def newSession_def)

lemma batchesToSend_sendNextBatch [simp]: "batchesToSend (sendNextBatch s) = batchesToSend s"
  by (simp add: sendNextBatch_def ws_send_def Let_def)

lemma batchesToSend_on_message [simp]: "batchesToSend (on_message f s) = batchesToSend s"
  by (cases f)
     (simp_all add: on_message_def on_connected_def on_history_batch_ack_def
        on_history_upload_complete_ack_def on_reply_def on_error_message_def Let_def
        ws_send_def ws_close_def reject_def resolve_def clearTimeout_def split: option.split)

lemma batchesToSend_step [simp]: "batchesToSend (step s e) = batchesToSend s"
  by (cases e)
     (simp_all add: on_open_def on_error_def on_close_def on_timeout_def on_graceTimer_def
        on_retryTimer_def ws_close_def reject_def clearTimeout_def Let_def)

lemma batchesToSend_run [simp]: "batchesToSend (run s es) = batchesToSend s"
  by (induction es rule: rev_induct) (simp_all add: run_Nil run_snoc)

lemma acked_sendNextBatch [simp]:
  "totalBatchesAcknowledged (sendNextBatch s) = totalBatchesAcknowledged s"
  by (simp add: sendNextBatch_def ws_send_def Let_def)

lemma acked_step:
  "totalBatchesAcknowledged (step s e) =
     totalBatchesAcknowledged s + (if is_batch_ack e then 1 else 0)"
proof (cases e)
  case (Ev_message f)
  then show ?thesis
    by (cases f)
       (simp_all add: on_message_def on_connected_def on_history_batch_ack_def
          on_history_upload_complete_ack_def on_reply_def on_error_message_def Let_def
          ws_send_def ws_close_def reject_def resolve_def clearTimeout_def split: option.split)
qed (simp_all add: on_open_def on_error_def on_close_def on_timeout_def on_graceTimer_def
        on_retryTimer_def ws_close_def reject_def clearTimeout_def Let_def)

lemma acked_run:
  "totalBatchesAcknowledged (run s es) =
     totalBatchesAcknowledged s + length (filter is_batch_ack es)"
  by (induction es rule: rev_induct) (simp_all add: run_Nil run_snoc acked_step)

lemma complete_acked_sendNextBatch [simp]:
  "historyUploadCompleteAcknowledged (sendNextBatch s) = historyUploadCompleteAcknowledged s"
  by (simp add: sendNextBatch_def ws_send_def Let_def)

lemma complete_acked_step:
  "historyUploadCompleteAcknowledged (step s e) =
     (historyUploadCompleteAcknowledged s \<or> is_upload_complete_ack e)"
proof (cases e)
  case (Ev_message f)
  then show ?thesis
    by (cases f)
       (simp_all add: on_message_def on_connected_def on_history_batch_ack_def
          on_history_upload_complete_ack_def on_reply_def on_error_message_def Let_def
          ws_send_def ws_close_def reject_def resolve_def clearTimeout_def split: option.split)
qed (simp_all add: on_open_def on_error_def on_close_def on_timeout_def on_graceTimer_def
        on_retryTimer_def ws_close_def reject_def clearTimeout_def Let_def)

lemma complete_acked_run:
  "historyUploadCompleteAcknowledged (run s es) =
     (historyUploadCompleteAcknowledged s \<or> list_ex is_upload_complete_ack es)"
  by (induction es rule: rev_induct) (simp_all add: run_Nil run_snoc complete_acked_step)

lemma prepareBatches_e0:
  "prepareBatches [e0] = [\<lparr> history = [e0], batchNumber = 1, totalBatches = 1 \<rparr>]"
  by (simp add: prepareBatches_def prepareLoop.simps ceil_div_def BATCH_SIZE_def slice_def)

lemma prepareBatches_Nil: "prepareBatches [] = []"
  by (simp add: prepareBatches_def)

lemmas handler_defs =
  on_open_def on_message_def on_connected_def on_history_batch_ack_def
  on_history_upload_complete_ack_def on_reply_def on_error_message_def on_error_def
  on_close_def on_timeout_def on_graceTimer_def on_retryTimer_def sendNextBatch_def
  ws_send_def ws_close_def reject_def resolve_def clearTimeout_def msg_of_type_def
  connected_msg_def history_batch_ack_msg_def history_upload_complete_ack_msg_def

section \<open>Ordering of upload, completion signal and chat request\<close>

text \<open>
  C1. In every session, whatever events arrive and in whatever order: a \<open>chat\<close>
  request is on the wire only if a \<open>history_upload_complete_ack\<close> message was
  received; when \<open>history_upload_complete\<close> is on the wire, every prepared batch was
  transmitted before it, in order, and the count of acknowledgments, which is the number
  of \<open>history_batch_ack\<close> messages received, is at least the number of batches.
  With no batch prepared, the completion signal goes out when the welcome message
  arrives on the open socket. The statement holds for every event sequence, hence at
  the moment each frame is sent.
\<close>

theorem upload_ordering:
  "(let s = run (newSession msg conv hist) es
    in (list_ex is_chat (wire s) \<longrightarrow> list_ex is_upload_complete_ack es)
     \<and> (HistoryUploadComplete \<in> set (wire s) \<longrightarrow>
           batches_of (takeWhile (\<lambda>m. m \<noteq> HistoryUploadComplete) (wire s)) = prepareBatches hist
         \<and> length (prepareBatches hist) \<le> totalBatchesAcknowledged s)
     \<and> totalBatchesAcknowledged s = length (filter is_batch_ack es))
   \<and> (prepareBatches hist = [] \<longrightarrow>
        wire (run (newSession msg conv hist) [Ev_open, connected_msg]) = [HistoryUploadComplete])"
proof -
  let ?start = "newSession msg conv hist"
  let ?s = "run ?start es"
  have inv: "upload_inv ?s"
    by (rule upload_inv_run [OF upload_inv_newSession])
  have "batchesToSend ?start = prepareBatches hist"
    by (simp add: newSession_def)
  then have bs: "batchesToSend ?s = prepareBatches hist"
    by (simp only: batchesToSend_run)
  have init: "historyUploadCompleteAcknowledged ?start = False" "totalBatchesAcknowledged ?start = 0"
    by (simp_all add: newSession_def)
  have "list_ex is_chat (wire ?s) \<longrightarrow> historyUploadCompleteAcknowledged ?s"
    using inv unfolding upload_inv_def by blast
  then have chat: "list_ex is_chat (wire ?s) \<longrightarrow> list_ex is_upload_complete_ack es"
    unfolding complete_acked_run init by simp
  have "HistoryUploadComplete \<in> set (wire ?s) \<longrightarrow>
           batches_of (takeWhile (\<lambda>m. m \<noteq> HistoryUploadComplete) (wire ?s)) = batchesToSend ?s
         \<and> length (batchesToSend ?s) \<le> totalBatchesAcknowledged ?s"
    using inv unfolding upload_inv_def by blast
  then have complete: "HistoryUploadComplete \<in> set (wire ?s) \<longrightarrow>
           batches_of (takeWhile (\<lambda>m. m \<noteq> HistoryUploadComplete) (wire ?s)) = prepareBatches hist
         \<and> length (prepareBatches hist) \<le> totalBatchesAcknowledged ?s"
    unfolding bs .
  have acks: "totalBatchesAcknowledged ?s = length (filter is_batch_ack es)"
    unfolding acked_run init by simp
  have zero: "prepareBatches hist = [] \<longrightarrow>
        wire (run ?start [Ev_open, connected_msg]) = [HistoryUploadComplete]"
    by (simp add: run_def newSession_def connected_msg_def msg_of_type_def on_open_def
          on_message_def on_connected_def ws_send_def Let_def)
  from chat complete acks zero show ?thesis
    by (simp only: Let_def simp_thms)
qed

lemma full_exchange_wire:
  "wire (run (newSession ''hi'' [] [e0]) full_exchange) =
     [HistoryBatch \<lparr> history = [e0], batchNumber = 1, totalBatches = 1 \<rparr>,
      HistoryUploadComplete, Chat ''hi'' []]"
  by (simp add: full_exchange_def run_def newSession_def prepareBatches_e0 connected_msg_def
        history_batch_ack_msg_def history_upload_complete_ack_msg_def msg_of_type_def
        on_open_def on_message_def on_connected_def on_history_batch_ack_def
        on_history_upload_complete_ack_def sendNextBatch_def ws_send_def Let_def
        js_trim_def is_ws_def)

theorem upload_ordering_witness:
  "list_ex is_chat (wire (run (newSession ''hi'' [] [e0]) full_exchange))
   \<and> list_ex is_upload_complete_ack full_exchange
   \<and> HistoryUploadComplete \<in> set (wire (run (newSession ''hi'' [] [e0]) full_exchange))
   \<and> length (prepareBatches [e0]) \<le> totalBatchesAcknowledged (run (newSession ''hi'' [] [e0]) full_exchange)
   \<and> prepareBatches [] = []
   \<and> wire (run (newSession ''hi'' [] []) [Ev_open, connected_msg]) = [HistoryUploadComplete]"
proof -
  have a: "list_ex is_chat (wire (run (newSession ''hi'' [] [e0]) full_exchange))"
    by (simp add: full_exchange_wire)
  have b: "HistoryUploadComplete \<in> set (wire (run (newSession ''hi'' [] [e0]) full_exchange))"
    by (simp add: full_exchange_wire)
  from a b upload_ordering [of "''hi''" "[]" "[e0]" full_exchange]
       upload_ordering [of "''hi''" "[]" "[]" "[]"] prepareBatches_Nil
  show ?thesis by (simp add: Let_def)
qed

lemma prepareBatches_501:
  "prepareBatches (replicate 501 e0) =
     [\<lparr> history = replicate 500 e0, batchNumber = 1, totalBatches = 2 \<rparr>,
      \<lparr> history = [e0], batchNumber = 2, totalBatches = 2 \<rparr>]"
proof -
  have l: "length (replicate 501 e0) = 501" by (simp only: length_replicate)
  have a: "slice 0 (0 + BATCH_SIZE) (replicate 501 e0) = replicate 500 e0"
    by (simp only: slice_def BATCH_SIZE_def drop_0 take_replicate) simp
  have b: "slice (0 + BATCH_SIZE) (0 + BATCH_SIZE + BATCH_SIZE) (replicate 501 e0) = [e0]"
    by (simp only: slice_def BATCH_SIZE_def drop_replicate take_replicate) simp
  have c: "ceil_div 501 BATCH_SIZE = 2"
    by (simp add: ceil_div_def BATCH_SIZE_def)
  have "prepareLoop (replicate 501 e0) 2 (0 + BATCH_SIZE + BATCH_SIZE) = []"
    by (subst prepareLoop.simps) (simp only: l BATCH_SIZE_def, simp)
  then have "prepareLoop (replicate 501 e0) 2 (0 + BATCH_SIZE) =
               [\<lparr> history = [e0], batchNumber = 2, totalBatches = 2 \<rparr>]"
    by (subst prepareLoop.simps) (simp only: l b, simp add: BATCH_SIZE_def)
  then have "prepareLoop (replicate 501 e0) 2 0 =
     [\<lparr> history = replicate 500 e0, batchNumber = 1, totalBatches = 2 \<rparr>,
      \<lparr> history = [e0], batchNumber = 2, totalBatches = 2 \<rparr>]"
    by (subst prepareLoop.simps) (simp only: l a, simp add: BATCH_SIZE_def)
  then show ?thesis
    by (simp only: prepareBatches_def l c) simp
qed

section \<open>One batch in flight\<close>

text \<open>
  C2. The claim: batch \<open>i > 1\<close> is sent only after \<open>i - 1\<close> acknowledgments
  were received. The run below is a session of 501 records (two batches) in which
  the welcome message is late: the socket opens, the one-second timer fires and sends
  batch 1, then the \<open>connected\<close> message arrives. The handler of \<open>connected\<close> calls
  \<open>sendNextBatch\<close> again, so batch 2 is on the wire while no acknowledgment was
  received: two batches are in flight.
\<close>

theorem late_welcome_sends_second_batch_unacknowledged:
  "(let s = run (newSession msg conv (replicate 501 e0)) [Ev_open, Ev_graceTimer, connected_msg]
    in wire s = [HistoryBatch \<lparr> history = replicate 500 e0, batchNumber = 1, totalBatches = 2 \<rparr>,
                 HistoryBatch \<lparr> history = [e0], batchNumber = 2, totalBatches = 2 \<rparr>]
     \<and> totalBatchesAcknowledged s = 0)"
  by (simp add: run_def newSession_def prepareBatches_501 handler_defs Let_def)

section \<open>The grace timeout\<close>

text \<open>
  C4. The socket opens and the one-second timer fires before any welcome message.
  With batches prepared, the first batch goes out. With no batch prepared the timer's
  callback does nothing: no \<open>history_upload_complete\<close> is sent, no timer is left
  pending and the Promise is unsettled, so the session waits for a late welcome or for
  the five-minute timeout.
\<close>

theorem grace_timeout_without_batches_sends_nothing:
  "(let s = run (newSession msg conv hist) [Ev_open, Ev_graceTimer]
    in wire s = map HistoryBatch (take 1 (prepareBatches hist))
     \<and> \<not> historyUploadCompleteSent s)
   \<and> (let s = run (newSession msg conv []) [Ev_open, Ev_graceTimer]
      in wire s = [] \<and> \<not> historyUploadCompleteSent s \<and> promise s = None
       \<and> graceTimers s = 0 \<and> sendTimers s = 0 \<and> retryTimers s = 0)"
proof -
  have "wire (run (newSession msg conv hist) [Ev_open, Ev_graceTimer])
          = map HistoryBatch (take 1 (prepareBatches hist))"
    by (cases "prepareBatches hist")
       (simp_all add: run_def newSession_def handler_defs Let_def)
  moreover have "\<not> historyUploadCompleteSent (run (newSession msg conv hist) [Ev_open, Ev_graceTimer])"
    by (simp add: run_def newSession_def handler_defs Let_def)
  moreover have "(let s = run (newSession msg conv []) [Ev_open, Ev_graceTimer]
      in wire s = [] \<and> \<not> historyUploadCompleteSent s \<and> promise s = None
       \<and> graceTimers s = 0 \<and> sendTimers s = 0 \<and> retryTimers s = 0)"
    by (simp add: run_def newSession_def prepareBatches_Nil handler_defs Let_def promise_def)
  ultimately show ?thesis by (simp only: Let_def simp_thms)
qed

section \<open>Messages that arrive in the wrong state\<close>

text \<open>
  C5, as claimed, fails: a \<open>history_batch_ack\<close> that arrives while no batch is in
  flight (the socket has just opened, nothing was sent) is not ignored. It is counted,
  it schedules \<open>sendNextBatch\<close>, and the first batch then goes out before any
  welcome message.
\<close>

theorem stray_ack_changes_state:
  "wire open_session = [] \<and> currentBatchIndex open_session = 0
   \<and> step open_session history_batch_ack_msg \<noteq> open_session
   \<and> totalBatchesAcknowledged open_session = 0
   \<and> totalBatchesAcknowledged (step open_session history_batch_ack_msg) = 1
   \<and> wire (run open_session [history_batch_ack_msg, Ev_sendTimer])
       = [HistoryBatch \<lparr> history = [e0], batchNumber = 1, totalBatches = 1 \<rparr>]"
proof -
  have a: "wire open_session = []" "currentBatchIndex open_session = 0"
    "totalBatchesAcknowledged open_session = 0"
    by (simp_all add: open_session_def run_def newSession_def handler_defs)
  have b: "totalBatchesAcknowledged (step open_session history_batch_ack_msg) = 1"
    by (simp add: open_session_def run_def newSession_def prepareBatches_e0 handler_defs Let_def)
  have c: "wire (run open_session [history_batch_ack_msg, Ev_sendTimer])
         = [HistoryBatch \<lparr> history = [e0], batchNumber = 1, totalBatches = 1 \<rparr>]"
    by (simp add: open_session_def run_def newSession_def prepareBatches_e0 handler_defs Let_def)
  have d: "step open_session history_batch_ack_msg \<noteq> open_session"
  proof
    assume "step open_session history_batch_ack_msg = open_session"
    then have "totalBatchesAcknowledged (step open_session history_batch_ack_msg)
                 = totalBatchesAcknowledged open_session"
      by (rule arg_cong)
    with a b show False by simp
  qed
  from a b c d show ?thesis by (simp only: simp_thms)
qed

lemma ignorable_unchanged: "is_ignorable f \<Longrightarrow> on_message f s = s"
  by (cases f) (auto simp: on_message_def)

lemma ack_keeps_session_alive:
  "is_ack_frame f \<Longrightarrow>
     settlements (on_message f s) = settlements s \<and> isResolved (on_message f s) = isResolved s
   \<and> ws_readyState (on_message f s) = ws_readyState s
   \<and> timeoutPending (on_message f s) = timeoutPending s"
  by (cases f)
     (auto simp: on_message_def on_history_batch_ack_def on_history_upload_complete_ack_def
        ws_send_def Let_def)

lemma connected_keeps_open_session_alive:
  "ws_readyState s = OPEN \<Longrightarrow>
     settlements (step s connected_msg) = settlements s
   \<and> isResolved (step s connected_msg) = isResolved s
   \<and> ws_readyState (step s connected_msg) = OPEN
   \<and> timeoutPending (step s connected_msg) = timeoutPending s"
  by (simp add: connected_msg_def msg_of_type_def on_message_def on_connected_def
        sendNextBatch_def ws_send_def Let_def)

text \<open>
  C5, amended. The code has no check of a message against the protocol position.
  Unparseable frames, \<open>chat_queued\<close> and messages of an unknown type without
  \<open>reply\<close> and \<open>error\<close> leave the whole state unchanged. An acknowledgment
  (\<open>history_batch_ack\<close>, \<open>history_upload_complete_ack\<close>) never settles the
  Promise, closes the socket or touches the timeout, and neither does a welcome
  message on an open socket; every \<open>history_batch_ack\<close> is counted, whatever the
  position.
\<close>

theorem wrong_state_messages_tolerated:
  "(is_ignorable f \<longrightarrow> step s (Ev_message f) = s)
   \<and> (is_ack_frame f \<longrightarrow>
         settlements (step s (Ev_message f)) = settlements s
       \<and> isResolved (step s (Ev_message f)) = isResolved s
       \<and> ws_readyState (step s (Ev_message f)) = ws_readyState s
       \<and> timeoutPending (step s (Ev_message f)) = timeoutPending s)
   \<and> (ws_readyState s = OPEN \<longrightarrow>
         settlements (step s connected_msg) = settlements s
       \<and> isResolved (step s connected_msg) = isResolved s
       \<and> ws_readyState (step s connected_msg) = OPEN
       \<and> timeoutPending (step s connected_msg) = timeoutPending s)
   \<and> totalBatchesAcknowledged (step s history_batch_ack_msg) = totalBatchesAcknowledged s + 1"
proof -
  have "totalBatchesAcknowledged (step s history_batch_ack_msg) = totalBatchesAcknowledged s + 1"
    using acked_step [of s history_batch_ack_msg]
    by (simp add: history_batch_ack_msg_def msg_of_type_def)
  with ignorable_unchanged [of f s] ack_keeps_session_alive [of f s]
       connected_keeps_open_session_alive [of s]
  show ?thesis by (simp only: step.simps) blast
qed

theorem wrong_state_messages_tolerated_witness:
  "is_ignorable Unparseable
   \<and> step open_session (Ev_message Unparseable) = open_session
   \<and> is_ack_frame ack_frame
   \<and> settlements (step open_session (Ev_message ack_frame)) = settlements open_session
   \<and> ws_readyState open_session = OPEN
   \<and> settlements (step open_session connected_msg) = settlements open_session
   \<and> totalBatchesAcknowledged (step open_session history_batch_ack_msg) = 1"
proof -
  have a: "ws_readyState open_session = OPEN" "totalBatchesAcknowledged open_session = 0"
    by (simp_all add: open_session_def run_def newSession_def on_open_def)
  have b: "is_ack_frame ack_frame" "is_ignorable Unparseable"
    by (simp_all add: ack_frame_def)
  from a b wrong_state_messages_tolerated [of Unparseable open_session]
       wrong_state_messages_tolerated [of ack_frame open_session]
  show ?thesis by simp
qed

section \<open>Settling the Promise\<close>

lemma settlements_sendNextBatch [simp]: "settlements (sendNextBatch s) = settlements s"
  by (simp add: sendNextBatch_def ws_send_def Let_def)





lemma timeoutPending_sendNextBatch [simp]: "timeoutPending (sendNextBatch s) = timeoutPending s"
  by (simp add: sendNextBatch_def ws_send_def Let_def)

lemma isResolved_sendNextBatch [simp]: "isResolved (sendNextBatch s) = isResolved s"
  by (simp add: sendNextBatch_def ws_send_def Let_def)











section \<open>Merging the results of the source calls\<close>














section \<open>The calls of \<open>fetchHistory\<close>\<close>


lemma searchWithFallback_Inl:
  "snd (searchWithFallback src stext q fq calls) = Inl err \<longleftrightarrow> src calls q = Inl err"
  by (auto simp: searchWithFallback_def split: sum.splits)


























section \<open>How many calls \<open>fetchHistory\<close> makes\<close>




section \<open>A failing call in the batch loop\<close>





section \<open>The records prepared for transmission\<close>












end
